theory Spec2Isabelle
  imports Complex_Main "HOL-Library.AList" "HOL-Library.Multiset" "HOL-Library.Product_Lexorder"
begin

section \<open>Data model of \<^verbatim>\<open>hveto/core.py\<close>\<close>

text \<open>
  Times, signal-to-noise ratios, windows and thresholds are Python floats in the source;
  the embedding uses exact reals for them, so rounding is outside the model. A row of a
  trigger table carries the four columns the program reads by name.
\<close>

datatype py_error =
  IndexError | KeyError | ValueError | AttributeError | TypeError

record event =
  time :: real
  frequency :: real
  snr :: real
  channel :: string

type_synonym table = "event list"

text \<open>
  A \<^verbatim>\<open>Segment(a, b)\<close> of the segments library is a pair whose constructor puts the
  smaller bound first.
\<close>

type_synonym seg = "real \<times> real"

definition Segment :: "real \<Rightarrow> real \<Rightarrow> seg" where
  "Segment a b = (if a \<le> b then (a, b) else (b, a))"

subsection \<open>Floating-point values that are not real numbers\<close>

text \<open>
  A computed significance or expected count can leave the reals: dividing by zero in the
  array library gives an infinity or NaN, and the special functions answer NaN outside
  their domain. Such values are data, not exceptions, so they are values of the model.
  The operations are those of IEEE arithmetic without rounding; the two zeros are one.
\<close>

datatype pyfloat = Finite real | PosInf | NegInf | NaN

fun fneg :: "pyfloat \<Rightarrow> pyfloat" where
  "fneg (Finite x) = Finite (- x)"
| "fneg PosInf = NegInf"
| "fneg NegInf = PosInf"
| "fneg NaN = NaN"

fun fadd :: "pyfloat \<Rightarrow> pyfloat \<Rightarrow> pyfloat" where
  "fadd (Finite x) (Finite y) = Finite (x + y)"
| "fadd NaN y = NaN"
| "fadd x NaN = NaN"
| "fadd PosInf NegInf = NaN"
| "fadd NegInf PosInf = NaN"
| "fadd PosInf y = PosInf"
| "fadd x PosInf = PosInf"
| "fadd NegInf y = NegInf"
| "fadd x NegInf = NegInf"

fun fmul :: "pyfloat \<Rightarrow> pyfloat \<Rightarrow> pyfloat" where
  "fmul (Finite x) (Finite y) = Finite (x * y)"
| "fmul NaN y = NaN"
| "fmul x NaN = NaN"
| "fmul (Finite x) PosInf = (if 0 < x then PosInf else if x < 0 then NegInf else NaN)"
| "fmul (Finite x) NegInf = (if 0 < x then NegInf else if x < 0 then PosInf else NaN)"
| "fmul PosInf (Finite y) = (if 0 < y then PosInf else if y < 0 then NegInf else NaN)"
| "fmul NegInf (Finite y) = (if 0 < y then NegInf else if y < 0 then PosInf else NaN)"
| "fmul PosInf PosInf = PosInf"
| "fmul NegInf NegInf = PosInf"
| "fmul PosInf NegInf = NegInf"
| "fmul NegInf PosInf = NegInf"

text \<open>\<open>x > y\<close>: false as soon as one side is NaN.\<close>

fun fgt :: "pyfloat \<Rightarrow> pyfloat \<Rightarrow> bool" where
  "fgt (Finite x) (Finite y) = (y < x)"
| "fgt NaN y = False"
| "fgt x NaN = False"
| "fgt x PosInf = False"
| "fgt PosInf y = True"
| "fgt NegInf y = False"
| "fgt (Finite x) NegInf = True"

text \<open>
  The quotient of two finite numbers in the array library's arithmetic: a zero divisor
  raises nothing and gives an infinity with the sign of the dividend, or NaN for \<open>0 / 0\<close>.
\<close>

definition fdiv :: "real \<Rightarrow> real \<Rightarrow> pyfloat" where
  "fdiv x y =
     (if y \<noteq> 0 then Finite (x / y)
      else if 0 < x then PosInf else if x < 0 then NegInf else NaN)"

subsection \<open>\<^verbatim>\<open>HvetoWinner\<close>: a class with \<^verbatim>\<open>__slots__\<close>\<close>

text \<open>
  Every slot of the class is either unset or holds a value; reading an unset slot raises
  \<^verbatim>\<open>AttributeError\<close>. Python's \<^verbatim>\<open>None\<close> is the \<open>None\<close> of an option type inside
  the slot.
\<close>

datatype 'a slot = Unset | Assigned 'a

fun getattr :: "'a slot \<Rightarrow> py_error + 'a" where
  "getattr Unset = Inl AttributeError"
| "getattr (Assigned v) = Inr v"

record HvetoWinner =
  name :: "string option slot"
  significance_of :: "pyfloat option slot"
  snr_of :: "real option slot"
  window :: "real option slot"
  segments :: "seg list option slot"
  events :: "table option slot"
  ncoinc :: "nat slot"
  mu_of :: "pyfloat option slot"
  n_vetoed :: "nat slot"

text \<open>
  \<^verbatim>\<open>__init__(self, name=None, significance=None, snr=None, window=None, segments=None,
  events=None, ncoinc=0, mu=None)\<close>: seven assignments, none of them to \<^verbatim>\<open>ncoinc\<close> or
  \<^verbatim>\<open>n_vetoed\<close>.
\<close>

definition HvetoWinner_init ::
  "string option \<Rightarrow> pyfloat option \<Rightarrow> real option \<Rightarrow> real option \<Rightarrow> seg list option \<Rightarrow>
   table option \<Rightarrow> nat \<Rightarrow> pyfloat option \<Rightarrow> HvetoWinner" where
  "HvetoWinner_init name_arg significance_arg snr_arg window_arg segments_arg events_arg
     ncoinc_arg mu_arg =
     \<lparr> name = Assigned name_arg,
       significance_of = Assigned significance_arg,
       snr_of = Assigned snr_arg,
       window = Assigned window_arg,
       segments = Assigned segments_arg,
       events = Assigned events_arg,
       ncoinc = Unset,
       mu_of = Assigned mu_arg,
       n_vetoed = Unset \<rparr>"

section \<open>Pairwise coincidences\<close>

subsection \<open>The two binary searches of Python's \<^verbatim>\<open>bisect\<close> module\<close>

text \<open>
  \<^verbatim>\<open>bisect_left(b, x)\<close> and \<^verbatim>\<open>bisect_right(b, x)\<close> halve the range \<open>lo..<hi\<close> until it is
  empty; the first moves \<open>lo\<close> past elements smaller than \<open>x\<close>, the second past elements
  not larger than \<open>x\<close>.
\<close>

function bisect_left_loop :: "real list \<Rightarrow> real \<Rightarrow> nat \<Rightarrow> nat \<Rightarrow> nat" where
  "bisect_left_loop b x lo hi =
     (if lo < hi then
        (let mid = (lo + hi) div 2
         in if b ! mid < x then bisect_left_loop b x (mid + 1) hi
            else bisect_left_loop b x lo mid)
      else lo)"
  by pat_completeness auto
termination
  by (relation "measure (\<lambda>(b, x, lo, hi). hi - lo)") auto

function bisect_right_loop :: "real list \<Rightarrow> real \<Rightarrow> nat \<Rightarrow> nat \<Rightarrow> nat" where
  "bisect_right_loop b x lo hi =
     (if lo < hi then
        (let mid = (lo + hi) div 2
         in if x < b ! mid then bisect_right_loop b x lo mid
            else bisect_right_loop b x (mid + 1) hi)
      else lo)"
  by pat_completeness auto
termination
  by (relation "measure (\<lambda>(b, x, lo, hi). hi - lo)") auto

definition bisect_left :: "real list \<Rightarrow> real \<Rightarrow> nat" where
  "bisect_left b x = bisect_left_loop b x 0 (length b)"

definition bisect_right :: "real list \<Rightarrow> real \<Rightarrow> nat" where
  "bisect_right b x = bisect_right_loop b x 0 (length b)"

subsection \<open>\<^verbatim>\<open>find_coincidences\<close>\<close>

definition is_coincident :: "real list \<Rightarrow> real \<Rightarrow> real \<Rightarrow> bool" where
  "is_coincident b dx t =
     (let x = bisect_left b (t - dx); y = bisect_right b (t + dx)
      in if x \<noteq> y then True else False)"

text \<open>
  \<^verbatim>\<open>out[i] = _is_coincident(t)\<close> for every position, then \<^verbatim>\<open>out.nonzero()[0]\<close>: the
  positions holding a hit, in ascending order.
\<close>

definition find_coincidences :: "real list \<Rightarrow> real list \<Rightarrow> real \<Rightarrow> nat list" where
  "find_coincidences a b dt =
     (let dx = dt / 2
      in filter (\<lambda>i. is_coincident b dx (a ! i)) [0..<length a])"

text \<open>
  The window as the specification words it, closed below and open above: the positions
  \<open>i\<close> of \<open>a\<close> for which \<open>b\<close> has an element in \<open>[a[i] - dt/2, a[i] + dt/2)\<close>.
\<close>

definition closed_open_hits :: "real list \<Rightarrow> real list \<Rightarrow> real \<Rightarrow> nat list" where
  "closed_open_hits a b dt =
     filter (\<lambda>i. \<exists>y\<in>set b. a ! i - dt / 2 \<le> y \<and> y < a ! i + dt / 2) [0..<length a]"

section \<open>Veto engine\<close>

text \<open>
  \<^verbatim>\<open>SegmentList.coalesce()\<close> of the segments library sorts the list, then walks it once:
  a run of segments that overlap or touch (\<^verbatim>\<open>hi >= self[j][0]\<close>) is merged into one segment
  from the run's first start to its largest end, and a merged segment of zero length is
  dropped (\<^verbatim>\<open>if lo != hi\<close>). \<open>coalesce_from lo hi ss\<close> is the walk with the run in progress
  held in \<open>lo\<close> and \<open>hi\<close>.
\<close>

fun coalesce_from :: "real \<Rightarrow> real \<Rightarrow> seg list \<Rightarrow> seg list" where
  "coalesce_from lo hi [] = (if lo \<noteq> hi then [Segment lo hi] else [])"
| "coalesce_from lo hi (s # ss) =
     (if hi \<ge> fst s then coalesce_from lo (max hi (snd s)) ss
      else (if lo \<noteq> hi then [Segment lo hi] else []) @ coalesce_from (fst s) (snd s) ss)"

definition coalesce :: "seg list \<Rightarrow> seg list" where
  "coalesce segmentlist =
     (case sort segmentlist of
        [] \<Rightarrow> []
      | s # ss \<Rightarrow> coalesce_from (fst s) (snd s) ss)"

text \<open>
  The \<^verbatim>\<open>while i < times.size\<close> loop of \<^verbatim>\<open>veto\<close>. Its state is the event index \<open>i\<close>, the
  segment index \<open>j\<close>, the current segment \<open>(a, b)\<close> and the \<^verbatim>\<open>keep\<close> flags. Running out of
  segments (\<^verbatim>\<open>IndexError\<close> inside the \<^verbatim>\<open>try\<close>) leaves the loop.
\<close>

function veto_loop :: "real list \<Rightarrow> seg list \<Rightarrow> nat \<Rightarrow> nat \<Rightarrow> seg \<Rightarrow> bool list \<Rightarrow> bool list" where
  "veto_loop tms segmentlist i j (a, b) keep =
     (if i < length tms then
        (let t = tms ! i
         in if t < a then veto_loop tms segmentlist (i + 1) j (a, b) keep
            else if t > b then
              (if j + 1 < length segmentlist
               then veto_loop tms segmentlist i (j + 1) (segmentlist ! (j + 1)) keep
               else keep)
            else veto_loop tms segmentlist (i + 1) j (a, b) (keep[i := False]))
      else keep)"
  by pat_completeness auto
termination
  by (relation "measure (\<lambda>(tms, segmentlist, i, j, s, keep).
        (length tms - i) + (length segmentlist - j))") auto

text \<open>Indexing a table with a boolean array keeps the rows whose flag is set.\<close>

definition mask :: "bool list \<Rightarrow> 'a list \<Rightarrow> 'a list" where
  "mask flags rows = map snd (filter fst (zip flags rows))"

text \<open>
  \<^verbatim>\<open>veto\<close> sorts the table by time (\<open>sort_key\<close> is stable; the order the library gives to
  rows of equal time plays no part below), coalesces a copy of the segment list and reads
  its first segment before the loop: on an empty list that read raises \<^verbatim>\<open>IndexError\<close>.
\<close>

definition veto :: "table \<Rightarrow> seg list \<Rightarrow> py_error + (table \<times> table)" where
  "veto tbl segmentlist =
     (let sorted_table = sort_key time tbl;
          tms = map time sorted_table;
          segmentlist' = coalesce segmentlist;
          keep = replicate (length tms) True
      in case segmentlist' of
           [] \<Rightarrow> Inl IndexError
         | s # _ \<Rightarrow>
             (let keep' = veto_loop tms segmentlist' 0 0 s keep
              in Inr (mask keep' sorted_table, mask (map Not keep') sorted_table)))"

text \<open>
  \<^verbatim>\<open>vstack\<close> of the table library appends the rows of the tables in order, and refuses an
  empty list of tables. A dictionary is an association list with its keys in insertion
  order.
\<close>

definition vstack_tables :: "table list \<Rightarrow> py_error + table" where
  "vstack_tables tables = (if tables = [] then Inl ValueError else Inr (concat tables))"

definition veto_all :: "(string \<times> table) list \<Rightarrow> seg list \<Rightarrow> py_error + (string \<times> table) list" where
  "veto_all auxiliary segmentlist =
     (let channels = map fst auxiliary
      in case vstack_tables (map snd auxiliary) of
           Inl err \<Rightarrow> Inl err
         | Inr t \<Rightarrow>
             (case veto t segmentlist of
                Inl err \<Rightarrow> Inl err
              | Inr (keep, removed) \<Rightarrow>
                  Inr (map (\<lambda>c. (c, filter (\<lambda>e. channel e = c) keep)) channels)))"

text \<open>A time is vetoed by a list of segments when \<open>start \<le> t \<le> end\<close> for one of them.\<close>

definition in_segments :: "seg list \<Rightarrow> real \<Rightarrow> bool" where
  "in_segments segs t = (\<exists>s\<in>set segs. fst s \<le> t \<and> t \<le> snd s)"

section \<open>Grid coincidences\<close>

type_synonym cell = "real \<times> real"

text \<open>
  The inner function \<^verbatim>\<open>add_if_coinc\<close>, with the variables it closes over as arguments and
  the dictionary \<^verbatim>\<open>channels\<close> (grid cell to set of channel names) passed through. It returns
  nothing (a false value) for an event of the primary channel and \<^verbatim>\<open>1\<close> otherwise: the
  program requires Python 3, where \<^verbatim>\<open>filter\<close> gives an iterator, which is never false, so
  the \<^verbatim>\<open>if not in_seg\<close> branch is not taken. The window index \<open>k\<close> counts the segments
  that contain the event, as \<^verbatim>\<open>enumerate(in_seg)\<close> does.
\<close>

definition add_if_coinc ::
  "string \<Rightarrow> real list \<Rightarrow> real list \<Rightarrow> seg list \<Rightarrow> event \<Rightarrow> (cell \<times> string list) list \<Rightarrow>
   (cell \<times> string list) list \<times> bool" where
  "add_if_coinc chan windows snrs segs ev channels =
     (if channel ev = chan then (channels, False)
      else
        (let in_seg = filter (\<lambda>s. fst s \<le> time ev \<and> time ev \<le> snd s) segs
         in (fold (\<lambda>k chs.
                 fold (\<lambda>thr chs'. AList.map_entry (windows ! k, thr) (List.insert (channel ev)) chs')
                   (filter (\<lambda>s. snr ev \<ge> s) snrs) chs)
               [0..<length in_seg] channels,
             True)))"

text \<open>
  The two \<^verbatim>\<open>while\<close> loops walk away from the primary event, to the left and to the right,
  and stop at the first event for which \<^verbatim>\<open>add_if_coinc\<close> returns a false value.
\<close>

fun scan_while ::
  "(event \<Rightarrow> 'st \<Rightarrow> 'st \<times> bool) \<Rightarrow> event list \<Rightarrow> 'st \<Rightarrow> 'st" where
  "scan_while f [] st = st"
| "scan_while f (ev # evs) st =
     (case f ev st of
        (st', True) \<Rightarrow> scan_while f evs st'
      | (st', False) \<Rightarrow> st')"

text \<open>
  ``Count 'em up'': every channel in the set of a cell adds one to the cell's count for
  that channel. A set has no order of its own; the list stands for it.
\<close>

definition count_up ::
  "(cell \<times> string list) list \<Rightarrow> (cell \<times> (string \<times> nat) list) list \<Rightarrow>
   (cell \<times> (string \<times> nat) list) list" where
  "count_up channels coincs =
     fold (\<lambda>(p, cset) co.
         fold (\<lambda>c co'.
             AList.map_entry p
               (\<lambda>cdict. case map_of cdict c of
                            Some n \<Rightarrow> AList.update c (n + 1) cdict
                          | None \<Rightarrow> AList.update c 1 cdict) co')
           cset co)
       channels coincs"

text \<open>One turn of \<^verbatim>\<open>for i, x in enumerate(triggers)\<close>.\<close>

definition primary_step ::
  "table \<Rightarrow> string \<Rightarrow> real list \<Rightarrow> real list \<Rightarrow> nat \<Rightarrow>
   (cell \<times> (string \<times> nat) list) list \<Rightarrow> (cell \<times> (string \<times> nat) list) list" where
  "primary_step triggers chan snrs windows i coincs =
     (let x = triggers ! i
      in if channel x \<noteq> chan then coincs
         else
           (let t = time x;
                channels = map (\<lambda>key. (key, [])) (map fst coincs);
                segs = map (\<lambda>dt. Segment (t - dt / 2) (t + dt / 2)) windows;
                channels = scan_while (add_if_coinc chan windows snrs segs)
                             (rev (take i triggers)) channels;
                channels = scan_while (add_if_coinc chan windows snrs segs)
                             (drop (i + 1) triggers) channels
            in count_up channels coincs))"

text \<open>
  \<^verbatim>\<open>find_all_coincidences\<close> sorts the table by time (rows of equal time keep their given
  order here; the library's sort does not promise one), the windows in descending and the
  thresholds in ascending order, and starts every grid cell with an empty dictionary.
\<close>

definition find_all_coincidences ::
  "table \<Rightarrow> string \<Rightarrow> real list \<Rightarrow> real list \<Rightarrow> (cell \<times> (string \<times> nat) list) list" where
  "find_all_coincidences triggers chan snrs windows =
     (let triggers = sort_key time triggers;
          windows = rev (sort windows);
          snrs = sort snrs;
          coincs = fold (\<lambda>p d. AList.update p [] d) (List.product windows snrs) [];
          ntrig = length triggers
      in fold (primary_step triggers chan snrs windows) [0..<ntrig] coincs)"

text \<open>
  The count as the specification words it: the number of events of the primary channel
  that have at least one event of channel \<open>c\<close> with \<open>snr\<close> at least the threshold inside
  the window centred on their time.
\<close>

definition spec_coinc_count :: "table \<Rightarrow> string \<Rightarrow> real \<Rightarrow> real \<Rightarrow> string \<Rightarrow> nat" where
  "spec_coinc_count triggers chan win thr c =
     length (filter (\<lambda>p. channel p = chan \<and>
               (\<exists>ev\<in>set triggers. channel ev = c \<and> thr \<le> snr ev \<and>
                   time p - win / 2 \<le> time ev \<and> time ev \<le> time p + win / 2))
             triggers)"


section \<open>Significance\<close>

text \<open>
  \<^verbatim>\<open>math.log10\<close> raises \<^verbatim>\<open>ValueError\<close> at zero, at a negative number and at minus infinity;
  it answers infinity at infinity and NaN at NaN.
\<close>

definition LOG_10 :: real where
  "LOG_10 = ln 10"

definition LOG_EXP_1 :: real where
  "LOG_EXP_1 = log 10 (exp 1)"

fun log10 :: "pyfloat \<Rightarrow> py_error + pyfloat" where
  "log10 (Finite x) = (if x \<le> 0 then Inl ValueError else Inr (Finite (log 10 x)))"
| "log10 PosInf = Inr PosInf"
| "log10 NegInf = Inl ValueError"
| "log10 NaN = Inr NaN"

text \<open>
  \<^verbatim>\<open>significance\<close>. The two special functions of the numerical library, \<^verbatim>\<open>gammainc\<close> and
  \<^verbatim>\<open>gammaln\<close>, are parameters of the model; the count \<open>n\<close> is a natural number and
  \<^verbatim>\<open>gammaln\<close> is given \<open>n + 1\<close>. A NaN from \<^verbatim>\<open>gammainc\<close> is not equal to 0, so it takes the
  second branch and comes back as the result.
\<close>

definition significance ::
  "(nat \<Rightarrow> pyfloat \<Rightarrow> pyfloat) \<Rightarrow> (nat \<Rightarrow> real) \<Rightarrow> nat \<Rightarrow> pyfloat \<Rightarrow> py_error + pyfloat" where
  "significance gammainc gammaln n mu =
     (let g = gammainc n mu
      in if g = Finite 0 then
           (case log10 mu of
              Inl err \<Rightarrow> Inl err
            | Inr l \<Rightarrow>
                Inr (fadd (fadd (fmul (Finite (- real n)) l) (fmul mu (Finite LOG_EXP_1)))
                       (Finite (gammaln (n + 1) / LOG_10))))
         else
           (case log10 g of
              Inl err \<Rightarrow> Inl err
            | Inr l \<Rightarrow> Inr (fneg l)))"

text \<open>
  In \<^verbatim>\<open>coinc_significance\<close> the division is between Python floats, so a zero
  \<^verbatim>\<open>livetime\<close> raises \<^verbatim>\<open>ZeroDivisionError\<close>, which the \<^verbatim>\<open>except\<close> clause turns into
  \<^verbatim>\<open>prob = 0\<close>.
\<close>

definition coinc_significance ::
  "(nat \<Rightarrow> pyfloat \<Rightarrow> pyfloat) \<Rightarrow> (nat \<Rightarrow> real) \<Rightarrow> real list \<Rightarrow> real list \<Rightarrow> real \<Rightarrow> real \<Rightarrow>
   py_error + (nat list \<times> pyfloat)" where
  "coinc_significance gammainc gammaln a b dt livetime =
     (let coincs = find_coincidences a b dt;
          n = length coincs
      in if n = 0 then Inr (coincs, Finite 0)
         else
           (let prob = (if livetime = 0 then 0 else real (length a) * dt / livetime);
                mu = prob * real (length b)
            in case significance gammainc gammaln n (Finite mu) of
                 Inl err \<Rightarrow> Inl err
               | Inr sig \<Rightarrow> Inr (coincs, sig)))"

text \<open>
  What the two library functions compute at a whole first argument, without rounding.
  \<^verbatim>\<open>gammainc(n, x)\<close> is the regularized lower incomplete gamma function,
  \<open>P(n, x) = 1 - exp (-x) * (\<Sum>k<n. x^k / k!)\<close> for \<open>n \<ge> 1\<close> and \<open>x \<ge> 0\<close>, the probability that a
  Poisson variable of mean \<open>x\<close> is at least \<open>n\<close>; it is 1 at an infinite \<open>x\<close>, and at
  \<open>n = 0\<close> for every \<open>x > 0\<close>; it is NaN for a negative or NaN \<open>x\<close> and at \<open>(0, 0)\<close>.
  \<^verbatim>\<open>gammaln(m)\<close> is \<open>ln ((m - 1)!)\<close>. \<open>exp_partial\<close> names the partial sum of the
  exponential series.
\<close>

definition regularized_gamma_P :: "nat \<Rightarrow> real \<Rightarrow> real" where
  "regularized_gamma_P n x = 1 - exp (- x) * (\<Sum>k<n. x ^ k / fact k)"

fun scipy_gammainc :: "nat \<Rightarrow> pyfloat \<Rightarrow> pyfloat" where
  "scipy_gammainc n (Finite x) =
     (if x < 0 then NaN
      else if n = 0 then (if 0 < x then Finite 1 else NaN)
      else Finite (regularized_gamma_P n x))"
| "scipy_gammainc n PosInf = Finite 1"
| "scipy_gammainc n NegInf = NaN"
| "scipy_gammainc n NaN = NaN"

definition log_gamma_nat :: "nat \<Rightarrow> real" where
  "log_gamma_nat m = ln (fact (m - 1))"

definition exp_partial :: "nat \<Rightarrow> real \<Rightarrow> real" where
  "exp_partial n x = (\<Sum>k<n. x ^ k / fact k)"

section \<open>Winner selection\<close>

text \<open>
  \<^verbatim>\<open>find_max_significance\<close>. The loop over \<^verbatim>\<open>coincs.items()\<close> and over the channels of each
  cell threads the winner and the per-channel best scores; an exception ends it. The
  expected count \<open>mu\<close> is computed in the array library's arithmetic, where a zero
  \<^verbatim>\<open>livetime\<close> raises nothing: \<open>mu\<close> is then an infinity or NaN, and the loop goes on with it.
\<close>

definition winner_significance :: "HvetoWinner \<Rightarrow> py_error + pyfloat" where
  "winner_significance w =
     (case significance_of w of
        Unset \<Rightarrow> Inl AttributeError
      | Assigned None \<Rightarrow> Inl TypeError
      | Assigned (Some x) \<Rightarrow> Inr x)"

definition score_step ::
  "(nat \<Rightarrow> pyfloat \<Rightarrow> pyfloat) \<Rightarrow> (nat \<Rightarrow> real) \<Rightarrow> table \<Rightarrow> (string \<times> table) list \<Rightarrow> real \<Rightarrow>
   cell \<Rightarrow> string \<times> nat \<Rightarrow> py_error + (HvetoWinner \<times> (string \<times> pyfloat) list) \<Rightarrow>
   py_error + (HvetoWinner \<times> (string \<times> pyfloat) list)" where
  "score_step gammainc gammaln primary auxiliary livetime p entry state =
     (case state of
        Inl err \<Rightarrow> Inl err
      | Inr (winner, sigs) \<Rightarrow>
          (let dt = fst p; thr = snd p; chan = fst entry
           in case map_of auxiliary chan of
                None \<Rightarrow> Inl KeyError
              | Some tbl \<Rightarrow>
                  (let mu = fdiv (real (length primary) *
                                  real (length (filter (\<lambda>e. snr e \<ge> thr) tbl)) * dt) livetime
                   in case significance gammainc gammaln (snd entry) mu of
                        Inl err \<Rightarrow> Inl err
                      | Inr sig \<Rightarrow>
                          (case map_of sigs chan of
                             None \<Rightarrow> Inl KeyError
                           | Some best \<Rightarrow>
                               (let sigs' = (if fgt sig best then AList.update chan sig sigs
                                             else sigs)
                                in case winner_significance winner of
                                     Inl err \<Rightarrow> Inl err
                                   | Inr current \<Rightarrow>
                                       if fgt sig current
                                       then Inr (winner\<lparr>name := Assigned (Some chan),
                                                   snr_of := Assigned (Some thr),
                                                   window := Assigned (Some dt),
                                                   significance_of := Assigned (Some sig),
                                                   mu_of := Assigned (Some mu)\<rparr>, sigs')
                                       else Inr (winner, sigs'))))))"

definition find_max_significance ::
  "(nat \<Rightarrow> pyfloat \<Rightarrow> pyfloat) \<Rightarrow> (nat \<Rightarrow> real) \<Rightarrow> table \<Rightarrow> (string \<times> table) list \<Rightarrow> string \<Rightarrow>
   real list \<Rightarrow> real list \<Rightarrow> real \<Rightarrow> py_error + (HvetoWinner \<times> (string \<times> pyfloat) list)" where
  "find_max_significance gammainc gammaln primary auxiliary chan snrs windows livetime =
     (case vstack_tables (primary # map snd auxiliary) of
        Inl err \<Rightarrow> Inl err
      | Inr rec \<Rightarrow>
          (let coincs = find_all_coincidences rec chan snrs windows;
               winner = HvetoWinner_init (Some ''unknown'') (Some (Finite (- 1))) None None None None
                          0 None;
               sigs = fold (\<lambda>c d. AList.update c (Finite 0) d) (map fst auxiliary) []
           in fold (\<lambda>(p, cdict) state.
                  fold (score_step gammainc gammaln primary auxiliary livetime p) cdict state)
                coincs (Inr (winner, sigs))))"

declare bisect_left_loop.simps [simp del]
declare bisect_right_loop.simps [simp del]
declare veto_loop.simps [simp del]

section \<open>Properties\<close>

subsection \<open>The winner record\<close>

text \<open>
  C10. A winner fresh from the constructor has no \<^verbatim>\<open>ncoinc\<close> and no \<^verbatim>\<open>n_vetoed\<close>: the
  \<^verbatim>\<open>ncoinc\<close> argument is dropped, both slots stay unset whatever the arguments are, and
  reading either raises \<^verbatim>\<open>AttributeError\<close>.
\<close>

theorem HvetoWinner_init_leaves_counts_unset:
  "ncoinc (HvetoWinner_init nm sg sn w ss es k m) = Unset \<and>
   n_vetoed (HvetoWinner_init nm sg sn w ss es k m) = Unset \<and>
   getattr (ncoinc (HvetoWinner_init nm sg sn w ss es k m)) = Inl AttributeError \<and>
   getattr (n_vetoed (HvetoWinner_init nm sg sn w ss es k m)) = Inl AttributeError \<and>
   HvetoWinner_init nm sg sn w ss es k m = HvetoWinner_init nm sg sn w ss es k' m"
  by (simp add: HvetoWinner_init_def)

subsection \<open>Binary search on a sorted list counts the elements below the key\<close>

lemma bisect_left_loop_spec:
  assumes "sorted b" "lo \<le> hi" "hi \<le> length b"
    "\<forall>i<lo. b ! i < x" "\<forall>i. hi \<le> i \<and> i < length b \<longrightarrow> x \<le> b ! i"
  shows "lo \<le> bisect_left_loop b x lo hi \<and> bisect_left_loop b x lo hi \<le> hi \<and>
         (\<forall>i<bisect_left_loop b x lo hi. b ! i < x) \<and>
         (\<forall>i. bisect_left_loop b x lo hi \<le> i \<and> i < length b \<longrightarrow> x \<le> b ! i)"
  using assms
proof (induction b x lo hi rule: bisect_left_loop.induct)
  case (1 b x lo hi)
  show ?case
  proof (cases "lo < hi")
    case False
    then have "bisect_left_loop b x lo hi = lo"
      by (subst bisect_left_loop.simps) simp
    with "1.prems" False show ?thesis by auto
  next
    case True
    define mid where "mid = (lo + hi) div 2"
    have mid: "lo \<le> mid" "mid < hi" using True by (auto simp: mid_def)
    show ?thesis
    proof (cases "b ! mid < x")
      case lt: True
      have below: "\<forall>i<mid + 1. b ! i < x"
      proof (intro allI impI)
        fix i assume "i < mid + 1"
        then have "b ! i \<le> b ! mid"
          using "1.prems"(1,3) mid by (intro sorted_nth_mono) auto
        with lt show "b ! i < x" by simp
      qed
      have rec: "bisect_left_loop b x lo hi = bisect_left_loop b x (mid + 1) hi"
        using True lt by (simp add: bisect_left_loop.simps [of b x lo hi] mid_def Let_def)
      have "mid + 1 \<le> bisect_left_loop b x (mid + 1) hi \<and> bisect_left_loop b x (mid + 1) hi \<le> hi \<and>
         (\<forall>i<bisect_left_loop b x (mid + 1) hi. b ! i < x) \<and>
         (\<forall>i. bisect_left_loop b x (mid + 1) hi \<le> i \<and> i < length b \<longrightarrow> x \<le> b ! i)"
        using "1.IH"(1) [OF True mid_def lt "1.prems"(1) _ "1.prems"(3) below "1.prems"(5)] mid
        by simp
      with rec mid show ?thesis by auto
    next
      case ge: False
      have above: "\<forall>i. mid \<le> i \<and> i < length b \<longrightarrow> x \<le> b ! i"
      proof (intro allI impI)
        fix i assume "mid \<le> i \<and> i < length b"
        then have "b ! mid \<le> b ! i"
          using "1.prems"(1) by (intro sorted_nth_mono) auto
        with ge show "x \<le> b ! i" by simp
      qed
      have rec: "bisect_left_loop b x lo hi = bisect_left_loop b x lo mid"
        using True ge by (simp add: bisect_left_loop.simps [of b x lo hi] mid_def Let_def)
      have "lo \<le> bisect_left_loop b x lo mid \<and> bisect_left_loop b x lo mid \<le> mid \<and>
         (\<forall>i<bisect_left_loop b x lo mid. b ! i < x) \<and>
         (\<forall>i. bisect_left_loop b x lo mid \<le> i \<and> i < length b \<longrightarrow> x \<le> b ! i)"
        using "1.IH"(2) [OF True mid_def ge "1.prems"(1) _ _ "1.prems"(4) above] mid "1.prems"(3)
        by simp
      with rec mid show ?thesis by auto
    qed
  qed
qed


lemma bisect_right_loop_spec:
  assumes "sorted b" "lo \<le> hi" "hi \<le> length b"
    "\<forall>i<lo. b ! i \<le> x" "\<forall>i. hi \<le> i \<and> i < length b \<longrightarrow> x < b ! i"
  shows "lo \<le> bisect_right_loop b x lo hi \<and> bisect_right_loop b x lo hi \<le> hi \<and>
         (\<forall>i<bisect_right_loop b x lo hi. b ! i \<le> x) \<and>
         (\<forall>i. bisect_right_loop b x lo hi \<le> i \<and> i < length b \<longrightarrow> x < b ! i)"
  using assms
proof (induction b x lo hi rule: bisect_right_loop.induct)
  case (1 b x lo hi)
  let ?mid = "(lo + hi) div 2"
  consider (stop) "\<not> lo < hi" | (left) "lo < hi" "x < b ! ?mid" | (right) "lo < hi" "\<not> x < b ! ?mid"
    by blast
  then show ?case
  proof cases
    case stop
    then have "bisect_right_loop b x lo hi = lo"
      by (subst bisect_right_loop.simps) simp
    with "1.prems" stop show ?thesis by auto
  next
    case left
    have "b ! ?mid \<le> b ! i" if "?mid \<le> i" "i < length b" for i
      using "1.prems"(1) that by (intro sorted_nth_mono) auto
    with left(2) have above: "\<forall>i. ?mid \<le> i \<and> i < length b \<longrightarrow> x < b ! i"
      by fastforce
    have bounds: "lo \<le> ?mid" "?mid \<le> length b"
      using left(1) "1.prems"(3) by auto
    have "bisect_right_loop b x lo hi = bisect_right_loop b x lo ?mid"
      using left by (subst bisect_right_loop.simps) (simp add: Let_def)
    moreover have "?mid \<le> hi" using left(1) by simp
    ultimately show ?thesis
      using "1.IH"(1) [OF left(1) refl left(2) "1.prems"(1) bounds "1.prems"(4) above]
      by auto
  next
    case right
    have "b ! i \<le> b ! ?mid" if "i < ?mid + 1" for i
      using "1.prems"(1,3) right(1) that by (intro sorted_nth_mono) auto
    with right(2) have below: "\<forall>i<?mid + 1. b ! i \<le> x"
      by fastforce
    have bounds: "?mid + 1 \<le> hi"
      using right(1) by auto
    have "bisect_right_loop b x lo hi = bisect_right_loop b x (?mid + 1) hi"
      using right by (subst bisect_right_loop.simps) (simp add: Let_def)
    moreover have "lo \<le> ?mid + 1" using right(1) by auto
    ultimately show ?thesis
      using "1.IH"(2) [OF right(1) refl right(2) "1.prems"(1) bounds "1.prems"(3) below "1.prems"(5)]
      by auto
  qed
qed

lemma filter_eq_take:
  assumes "r \<le> length b" "\<forall>i<r. P (b ! i)" "\<forall>i. r \<le> i \<and> i < length b \<longrightarrow> \<not> P (b ! i)"
  shows "filter P b = take r b"
proof -
  have "filter P (take r b) = take r b"
    using assms(1,2) by (auto simp: filter_id_conv in_set_conv_nth)
  moreover have "filter P (drop r b) = []"
    using assms(3) by (auto simp: filter_empty_conv in_set_conv_nth)
  ultimately have "filter P (take r b @ drop r b) = take r b"
    by (simp only: filter_append append_Nil2)
  then show ?thesis by (simp only: append_take_drop_id)
qed

lemma bisect_left_count:
  assumes "sorted b"
  shows "bisect_left b x = length (filter (\<lambda>y. y < x) b)"
proof -
  let ?r = "bisect_left b x"
  have spec: "?r \<le> length b \<and> (\<forall>i<?r. b ! i < x) \<and> (\<forall>i. ?r \<le> i \<and> i < length b \<longrightarrow> x \<le> b ! i)"
    using bisect_left_loop_spec [OF assms, of 0 "length b" x] by (simp add: bisect_left_def)
  then have "filter (\<lambda>y. y < x) b = take ?r b"
    by (intro filter_eq_take) (auto simp: not_less)
  with spec show ?thesis by simp
qed

lemma bisect_right_count:
  assumes "sorted b"
  shows "bisect_right b x = length (filter (\<lambda>y. y \<le> x) b)"
proof -
  let ?r = "bisect_right b x"
  have spec: "?r \<le> length b \<and> (\<forall>i<?r. b ! i \<le> x) \<and> (\<forall>i. ?r \<le> i \<and> i < length b \<longrightarrow> x < b ! i)"
    using bisect_right_loop_spec [OF assms, of 0 "length b" x] by (simp add: bisect_right_def)
  then have "filter (\<lambda>y. y \<le> x) b = take ?r b"
    by (intro filter_eq_take) (auto simp: not_le)
  with spec show ?thesis by simp
qed

lemma count_split:
  fixes b :: "real list"
  assumes "lo \<le> hi"
  shows "length (filter (\<lambda>y. y \<le> hi) b) =
         length (filter (\<lambda>y. y < lo) b) + length (filter (\<lambda>y. lo \<le> y \<and> y \<le> hi) b)"
  using assms by (induction b) auto

lemma count_split_rev:
  fixes b :: "real list"
  assumes "hi < lo"
  shows "length (filter (\<lambda>y. y < lo) b) =
         length (filter (\<lambda>y. y \<le> hi) b) + length (filter (\<lambda>y. hi < y \<and> y < lo) b)"
  using assms by (induction b) auto

lemma is_coincident_iff:
  assumes "sorted b"
  shows "is_coincident b dx t \<longleftrightarrow>
         (if 0 \<le> dx then \<exists>y\<in>set b. t - dx \<le> y \<and> y \<le> t + dx
          else \<exists>y\<in>set b. t + dx < y \<and> y < t - dx)"
proof (cases "0 \<le> dx")
  case True
  then have "t - dx \<le> t + dx" by simp
  from count_split [OF this, of b]
  have "bisect_left b (t - dx) \<noteq> bisect_right b (t + dx) \<longleftrightarrow>
        filter (\<lambda>y. t - dx \<le> y \<and> y \<le> t + dx) b \<noteq> []"
    by (simp add: bisect_left_count [OF assms] bisect_right_count [OF assms])
  with True show ?thesis
    by (simp add: is_coincident_def filter_empty_conv)
next
  case False
  then have "t + dx < t - dx" by simp
  from count_split_rev [OF this, of b]
  have "bisect_left b (t - dx) \<noteq> bisect_right b (t + dx) \<longleftrightarrow>
        filter (\<lambda>y. t + dx < y \<and> y < t - dx) b \<noteq> []"
    by (simp add: bisect_left_count [OF assms] bisect_right_count [OF assms])
  with False show ?thesis
    by (simp add: is_coincident_def filter_empty_conv)
qed

subsection \<open>Which positions \<^verbatim>\<open>find_coincidences\<close> returns\<close>

text \<open>
  C2, as the specification states it, fails: an element of \<open>b\<close> exactly \<open>dt/2\<close> above
  \<open>a[i]\<close> is found by \<^verbatim>\<open>bisect_right\<close> and makes position \<open>i\<close> a hit, although it is outside
  the closed-open window.
\<close>

theorem find_coincidences_upper_bound_hit:
  "find_coincidences [1] [2] 2 = [0] \<and> closed_open_hits [1] [2] 2 = []"
  by code_simp

text \<open>
  C2, amended. For an ascending \<open>b\<close> the result lists, in ascending order and once each,
  the positions \<open>i\<close> of \<open>a\<close> for which \<open>b\<close> has an element in the closed window
  \<open>[a[i] - dt/2, a[i] + dt/2]\<close> when \<open>dt\<close> is not negative; for a negative \<open>dt\<close> the two
  searches cross and a position is a hit when \<open>b\<close> has an element strictly between
  \<open>a[i] + dt/2\<close> and \<open>a[i] - dt/2\<close>.
\<close>

theorem find_coincidences_closed_window:
  assumes "sorted b"
  shows "sorted (find_coincidences a b dt) \<and> distinct (find_coincidences a b dt) \<and>
         set (find_coincidences a b dt) =
           {i. i < length a \<and>
               (if 0 \<le> dt then \<exists>y\<in>set b. a ! i - dt / 2 \<le> y \<and> y \<le> a ! i + dt / 2
                else \<exists>y\<in>set b. a ! i + dt / 2 < y \<and> y < a ! i - dt / 2)}"
proof -
  have "sorted (find_coincidences a b dt)" "distinct (find_coincidences a b dt)"
    by (simp_all add: find_coincidences_def Let_def sorted_wrt_filter)
  moreover have "set (find_coincidences a b dt) =
           {i. i < length a \<and>
               (if 0 \<le> dt then \<exists>y\<in>set b. a ! i - dt / 2 \<le> y \<and> y \<le> a ! i + dt / 2
                else \<exists>y\<in>set b. a ! i + dt / 2 < y \<and> y < a ! i - dt / 2)}"
    by (auto simp: find_coincidences_def Let_def is_coincident_iff [OF assms])
  ultimately show ?thesis by simp
qed


theorem find_coincidences_closed_window_witness:
  "sorted [10.05, 25 :: real] \<and>
   0 \<in> set (find_coincidences [10, 20, 30] [10.05, 25] 0.2) \<and>
   1 \<notin> set (find_coincidences [10, 20, 30] [10.05, 25] 0.2) \<and>
   2 \<notin> set (find_coincidences [10, 20, 30] [10.05, 25] 0.2)"
proof -
  have s: "sorted [10.05, 25 :: real]" by simp
  show ?thesis
    using s find_coincidences_closed_window [OF s, of "[10, 20, 30]" "0.2"]
    by simp
qed

subsection \<open>The veto scan\<close>

lemma mask_map: "mask (map P rows) rows = filter P rows"
  by (induction rows) (auto simp: mask_def)

lemma Segment_ordered: "lo \<le> hi \<Longrightarrow> Segment lo hi = (lo, hi)"
  by (simp add: Segment_def)

lemma coalesce_from_starts:
  assumes "lo \<le> hi" "\<forall>s\<in>set ss. fst s \<le> snd s" "sorted (map fst ss)" "\<forall>s\<in>set ss. lo \<le> fst s"
  shows "sorted (map fst (coalesce_from lo hi ss)) \<and> (\<forall>s\<in>set (coalesce_from lo hi ss). lo \<le> fst s)"
  using assms
proof (induction ss arbitrary: lo hi)
  case Nil
  then show ?case by (simp add: Segment_ordered)
next
  case (Cons s ss)
  show ?case
  proof (cases "fst s \<le> hi")
    case True
    have "lo \<le> max hi (snd s)" using Cons.prems(1) by simp
    from Cons.IH [OF this] Cons.prems True show ?thesis by simp
  next
    case False
    have tail: "sorted (map fst (coalesce_from (fst s) (snd s) ss)) \<and>
                (\<forall>r\<in>set (coalesce_from (fst s) (snd s) ss). fst s \<le> fst r)"
      using Cons.prems by (intro Cons.IH) auto
    have "lo \<le> fst s" using Cons.prems(4) by simp
    with tail False Cons.prems(1) show ?thesis
      by (fastforce simp: Segment_ordered)
  qed
qed

lemma sorted_pairs_fst:
  fixes xs :: "seg list"
  assumes "sorted xs"
  shows "sorted (map fst xs)"
proof -
  have "sorted_wrt (\<lambda>x y. fst x \<le> fst y) xs"
    using assms by (rule sorted_wrt_mono_rel [rotated]) (auto simp: less_eq_prod_def)
  then show ?thesis by (simp add: sorted_map)
qed

lemma coalesce_starts_sorted:
  assumes "\<forall>s\<in>set segs. fst s \<le> snd s"
  shows "sorted (map fst (coalesce segs))"
proof (cases "sort segs")
  case Nil
  then show ?thesis by (simp add: coalesce_def)
next
  case (Cons s ss)
  have valid: "\<forall>r\<in>set (s # ss). fst r \<le> snd r"
    using assms Cons [symmetric] by simp
  have "sorted (s # ss)"
    using sorted_sort [of segs] Cons by simp
  then have srt: "sorted (map fst (s # ss))"
    by (rule sorted_pairs_fst)
  then have "sorted (map fst ss)" "\<forall>r\<in>set ss. fst s \<le> fst r"
    by auto
  with valid have "sorted (map fst (coalesce_from (fst s) (snd s) ss))"
    using coalesce_from_starts [of "fst s" "snd s" ss] by simp
  with Cons show ?thesis by (simp add: coalesce_def)
qed


lemma outside_all_segments:
  assumes "\<forall>j'<j. snd (segs ! j') < t"
    and "\<forall>j'. j \<le> j' \<and> j' < length segs \<longrightarrow> t < fst (segs ! j')"
  shows "\<not> in_segments segs t"
proof
  assume "in_segments segs t"
  then obtain j' where j': "j' < length segs" "fst (segs ! j') \<le> t" "t \<le> snd (segs ! j')"
    by (auto simp: in_segments_def in_set_conv_nth)
  show False
  proof (cases "j' < j")
    case True
    with assms(1) j'(3) show False by fastforce
  next
    case False
    then have "j \<le> j'" by simp
    with assms(2) j'(1) have "t < fst (segs ! j')" by blast
    with j'(2) show False by simp
  qed
qed

lemma later_starts:
  assumes "sorted (map fst segs)" "j \<le> j'" "j' < length segs"
  shows "fst (segs ! j) \<le> fst (segs ! j')"
  using sorted_nth_mono [OF assms(1), of j j'] assms(2,3) by simp

lemma veto_loop_correct:
  assumes "sorted tms" "sorted (map fst segs)" "j < length segs" "s = segs ! j"
    "length keep = length tms"
    "\<forall>k. i \<le> k \<and> k < length tms \<longrightarrow> keep ! k"
    "\<forall>j'<j. \<forall>k. i \<le> k \<and> k < length tms \<longrightarrow> snd (segs ! j') < tms ! k"
  shows "length (veto_loop tms segs i j s keep) = length tms \<and>
         (\<forall>k<i. veto_loop tms segs i j s keep ! k = keep ! k) \<and>
         (\<forall>k. i \<le> k \<and> k < length tms \<longrightarrow>
              veto_loop tms segs i j s keep ! k = (\<not> in_segments segs (tms ! k)))"
  using assms
proof (induction tms segs i j s keep rule: veto_loop.induct)
  case (1 tms segs i j a b keep)
  let ?r = "veto_loop tms segs i j (a, b) keep"
  note ab = "1.prems"(4) [symmetric]
  show ?case
  proof (cases "i < length tms")
    case False
    then have "?r = keep" by (subst veto_loop.simps) simp
    with False "1.prems"(5) show ?thesis by auto
  next
    case i: True
    let ?t = "tms ! i"
    have passed: "\<forall>j'<j. snd (segs ! j') < ?t"
      using "1.prems"(7) i by simp
    consider (before) "?t < a" | (after) "\<not> ?t < a" "b < ?t" | (inside) "\<not> ?t < a" "\<not> b < ?t"
      by blast
    then show ?thesis
    proof cases
      case before
      have r: "?r = veto_loop tms segs (i + 1) j (a, b) keep"
        using i before by (subst veto_loop.simps) simp
      have ih: "length ?r = length tms \<and> (\<forall>k<i + 1. ?r ! k = keep ! k) \<and>
            (\<forall>k. i + 1 \<le> k \<and> k < length tms \<longrightarrow> ?r ! k = (\<not> in_segments segs (tms ! k)))"
        unfolding r
        using "1.prems" by (intro "1.IH"(1) [OF i refl before]) auto
      have "\<forall>j'. j \<le> j' \<and> j' < length segs \<longrightarrow> ?t < fst (segs ! j')"
        using later_starts [OF "1.prems"(2)] before ab by (fastforce simp: ab)
      with passed have "\<not> in_segments segs ?t"
        by (rule outside_all_segments)
      moreover have "?r ! i = keep ! i" using ih by simp
      moreover have "keep ! i" using "1.prems"(6) i by simp
      ultimately have here: "?r ! i = (\<not> in_segments segs ?t)" by simp
      have "?r ! k = (\<not> in_segments segs (tms ! k))" if "i \<le> k" "k < length tms" for k
        using that ih here by (cases "k = i") auto
      with ih show ?thesis by simp
    next
      case after
      show ?thesis
      proof (cases "j + 1 < length segs")
        case more: True
        have r: "?r = veto_loop tms segs i (j + 1) (segs ! (j + 1)) keep"
          using i after more by (subst veto_loop.simps) simp
        have "snd (segs ! j') < tms ! k" if "j' < j + 1" "i \<le> k" "k < length tms" for j' k
        proof (cases "j' = j")
          case True
          have "?t \<le> tms ! k" using "1.prems"(1) that by (intro sorted_nth_mono) auto
          with after(2) True ab show ?thesis by (metis snd_conv less_le_trans)
        next
          case False
          with that "1.prems"(7) show ?thesis by simp
        qed
        then have passed': "\<forall>j'<j + 1. \<forall>k. i \<le> k \<and> k < length tms \<longrightarrow> snd (segs ! j') < tms ! k"
          by blast
        show ?thesis
          unfolding r
          by (rule "1.IH"(2) [OF i refl after(1) after(2) more "1.prems"(1,2) more refl
                "1.prems"(5,6) passed'])
      next
        case last: False
        have r: "?r = keep"
          using i after last by (subst veto_loop.simps) simp
        have "\<not> in_segments segs (tms ! k)" if "i \<le> k" "k < length tms" for k
        proof (rule outside_all_segments [where j = "j + 1"])
          have "?t \<le> tms ! k" using "1.prems"(1) that by (intro sorted_nth_mono) auto
          with after(2) have "snd (segs ! j) < tms ! k" by (simp add: ab)
          with "1.prems"(7) that show "\<forall>j'<j + 1. snd (segs ! j') < tms ! k"
            by (auto simp: less_Suc_eq)
          show "\<forall>j'. j + 1 \<le> j' \<and> j' < length segs \<longrightarrow> tms ! k < fst (segs ! j')"
            using last by simp
        qed
        with r "1.prems"(5,6) show ?thesis by simp
      qed
    next
      case inside
      have r: "?r = veto_loop tms segs (i + 1) j (a, b) (keep[i := False])"
        using i inside by (subst veto_loop.simps) simp
      have ih: "length ?r = length tms \<and> (\<forall>k<i + 1. ?r ! k = keep[i := False] ! k) \<and>
            (\<forall>k. i + 1 \<le> k \<and> k < length tms \<longrightarrow> ?r ! k = (\<not> in_segments segs (tms ! k)))"
        unfolding r
        using "1.prems" by (intro "1.IH"(3) [OF i refl inside]) auto
      have "segs ! j \<in> set segs" using "1.prems"(3) by simp
      with inside have "in_segments segs ?t"
        unfolding in_segments_def by (intro bexI [of _ "segs ! j"]) (auto simp: ab)
      moreover have "?r ! i = False" using ih i "1.prems"(5) by simp
      ultimately have here: "?r ! i = (\<not> in_segments segs ?t)" by simp
      have "?r ! k = (\<not> in_segments segs (tms ! k))" if "i \<le> k" "k < length tms" for k
        using that ih here by (cases "k = i") auto
      moreover have "\<forall>k<i. ?r ! k = keep ! k" using ih by simp
      ultimately show ?thesis using ih by simp
    qed
  qed
qed


lemma veto_result:
  assumes "\<forall>s\<in>set segs. fst s \<le> snd s"
  shows "veto tbl segs =
         (if coalesce segs = [] then Inl IndexError
          else Inr (filter (\<lambda>e. \<not> in_segments (coalesce segs) (time e)) (sort_key time tbl),
                    filter (\<lambda>e. in_segments (coalesce segs) (time e)) (sort_key time tbl)))"
proof (cases "coalesce segs")
  case Nil
  then show ?thesis by (simp add: veto_def)
next
  case (Cons s rest)
  let ?cs = "coalesce segs"
  let ?tbl = "sort_key time tbl"
  let ?tms = "map time ?tbl"
  let ?keep = "veto_loop ?tms ?cs 0 0 s (replicate (length ?tms) True)"
  have "sorted ?tms" by simp
  moreover have "sorted (map fst ?cs)" using assms by (rule coalesce_starts_sorted)
  moreover have "0 < length ?cs" "s = ?cs ! 0" using Cons by simp_all
  ultimately have spec: "length ?keep = length ?tms \<and>
      (\<forall>k<0. ?keep ! k = replicate (length ?tms) True ! k) \<and>
      (\<forall>k. 0 \<le> k \<and> k < length ?tms \<longrightarrow> ?keep ! k = (\<not> in_segments ?cs (?tms ! k)))"
    by (intro veto_loop_correct) simp_all
  have keep: "?keep = map (\<lambda>e. \<not> in_segments ?cs (time e)) ?tbl"
    using spec by (intro nth_equalityI) simp_all
  have "map Not ?keep = map (\<lambda>e. in_segments ?cs (time e)) ?tbl"
    unfolding keep by simp
  with keep have "mask ?keep ?tbl = filter (\<lambda>e. \<not> in_segments ?cs (time e)) ?tbl"
    "mask (map Not ?keep) ?tbl = filter (\<lambda>e. in_segments ?cs (time e)) ?tbl"
    by (simp_all only: mask_map)
  then show ?thesis
    using Cons by (simp add: veto_def Let_def)
qed

lemma filter_own_channel:
  assumes "distinct (map fst aux)" "\<forall>(c, tbl)\<in>set aux. \<forall>e\<in>set tbl. channel e = c"
    "(c, tbl) \<in> set aux"
  shows "filter (\<lambda>e. channel e = c) (concat (map snd aux)) = tbl"
  using assms
proof (induction aux)
  case Nil
  then show ?case by simp
next
  case (Cons p aux)
  obtain c' tbl' where p: "p = (c', tbl')" by (cases p)
  show ?case
  proof (cases "c' = c")
    case True
    with Cons.prems p have here: "tbl' = tbl"
      by (auto simp: image_iff)
    have "filter (\<lambda>e. channel e = c) (concat (map snd aux)) = []"
      using Cons.prems(1,2) p True by (fastforce simp: filter_empty_conv image_iff)
    moreover have "filter (\<lambda>e. channel e = c) tbl = tbl"
      using Cons.prems(2) p True here by (auto simp: filter_id_conv)
    ultimately show ?thesis using p here by simp
  next
    case False
    with Cons.prems p have "(c, tbl) \<in> set aux" by auto
    with Cons.IH Cons.prems have "filter (\<lambda>e. channel e = c) (concat (map snd aux)) = tbl"
      by simp
    moreover have "filter (\<lambda>e. channel e = c) tbl' = []"
      using Cons.prems(2) p False by (auto simp: filter_empty_conv)
    ultimately show ?thesis using p by simp
  qed
qed

lemma map_of_tabulate:
  "c \<in> set ks \<Longrightarrow> map_of (map (\<lambda>k. (k, f k)) ks) c = Some (f c)"
  by (induction ks) auto

lemma veto_all_result:
  assumes "\<forall>s\<in>set segs. fst s \<le> snd s"
  shows "veto_all aux segs =
         (if aux = [] then Inl ValueError
          else if coalesce segs = [] then Inl IndexError
          else Inr (map (\<lambda>c. (c, filter (\<lambda>e. channel e = c)
                      (filter (\<lambda>e. \<not> in_segments (coalesce segs) (time e))
                         (sort_key time (concat (map snd aux)))))) (map fst aux)))"
  by (simp add: veto_all_def vstack_tables_def veto_result [OF assms])

text \<open>
  C9. For a dictionary whose tables hold the events of their own channel, whatever
  \<^verbatim>\<open>veto_all\<close> returns has the dictionary's keys, and under each key the same events
  (as a multiset) as the kept part of \<^verbatim>\<open>veto\<close> called on that channel's table alone with
  the same segment list; and it does return when there is a channel and the coalesced
  segment list is not empty.
\<close>

theorem veto_all_equiv:
  assumes "\<forall>s\<in>set segs. fst s \<le> snd s"
    and "distinct (map fst aux)"
    and "\<forall>(c, tbl)\<in>set aux. \<forall>e\<in>set tbl. channel e = c"
  shows "(\<forall>res. veto_all aux segs = Inr res \<longrightarrow>
            map fst res = map fst aux \<and>
            (\<forall>(c, tbl)\<in>set aux. \<exists>kept removed survivors.
                veto tbl segs = Inr (kept, removed) \<and> map_of res c = Some survivors \<and>
                mset survivors = mset kept)) \<and>
         (aux \<noteq> [] \<and> coalesce segs \<noteq> [] \<longrightarrow> (\<exists>res. veto_all aux segs = Inr res))"
proof (intro conjI allI impI)
  fix res assume res: "veto_all aux segs = Inr res"
  let ?out = "\<lambda>e. \<not> in_segments (coalesce segs) (time e)"
  let ?surv = "\<lambda>c. filter (\<lambda>e. channel e = c) (filter ?out (sort_key time (concat (map snd aux))))"
  from res have ne: "aux \<noteq> []" "coalesce segs \<noteq> []"
    and res_eq: "res = map (\<lambda>c. (c, ?surv c)) (map fst aux)"
    by (auto simp: veto_all_result [OF assms(1)] split: if_splits)
  show "map fst res = map fst aux"
    by (simp add: res_eq comp_def)
  show "\<forall>(c, tbl)\<in>set aux. \<exists>kept removed survivors.
          veto tbl segs = Inr (kept, removed) \<and> map_of res c = Some survivors \<and>
          mset survivors = mset kept"
  proof (clarify)
    fix c tbl assume mem: "(c, tbl) \<in> set aux"
    have own: "filter (\<lambda>e. channel e = c) (concat (map snd aux)) = tbl"
      using assms(2,3) mem by (rule filter_own_channel)
    have "c \<in> set (map fst aux)" using mem by force
    then have look: "map_of res c = Some (?surv c)"
      unfolding res_eq by (rule map_of_tabulate)
    have "mset (?surv c) = filter_mset ?out (filter_mset (\<lambda>e. channel e = c) (mset (concat (map snd aux))))"
      by (simp add: filter_filter_mset conj_commute)
    also have "\<dots> = filter_mset ?out (mset tbl)"
      using own by (metis mset_filter)
    also have "\<dots> = mset (filter ?out (sort_key time tbl))"
      by simp
    finally have "mset (?surv c) = mset (filter ?out (sort_key time tbl))" .
    with look ne(2) show "\<exists>kept removed survivors.
          veto tbl segs = Inr (kept, removed) \<and> map_of res c = Some survivors \<and>
          mset survivors = mset kept"
      by (simp add: veto_result [OF assms(1)])
  qed
next
  assume "aux \<noteq> [] \<and> coalesce segs \<noteq> []"
  then show "\<exists>res. veto_all aux segs = Inr res"
    by (simp add: veto_all_result [OF assms(1)])
qed


text \<open>
  C3. The claim asks for a partition on every input, the empty segment list included.
  On an empty list, and on a list that coalesces to the empty list such as a single
  segment of zero length, \<^verbatim>\<open>veto\<close> raises \<^verbatim>\<open>IndexError\<close> at \<^verbatim>\<open>a, b = segmentlist[j]\<close>
  before the loop and returns no partition, whatever the table.
\<close>

theorem veto_empty_segmentlist:
  "veto tbl [] = Inl IndexError \<and> veto tbl [(5, 5)] = Inl IndexError"
  by (simp add: veto_def coalesce_def)

text \<open>
  C8, as stated, fails: an unsorted list with overlapping segments is not rejected; the
  call returns a partition.
\<close>

theorem veto_unsorted_overlapping_accepted:
  "veto [\<lparr>time = 2, frequency = 0, snr = 1, channel = ''X''\<rparr>,
         \<lparr>time = 0, frequency = 0, snr = 1, channel = ''X''\<rparr>]
        [(3, 4), (1, 2), (1.5, 3.5)] =
   Inr ([\<lparr>time = 0, frequency = 0, snr = 1, channel = ''X''\<rparr>],
        [\<lparr>time = 2, frequency = 0, snr = 1, channel = ''X''\<rparr>])"
  by code_simp

text \<open>
  C8, amended. \<^verbatim>\<open>veto\<close> never tests whether its segment list is sorted or coalesced: it
  coalesces the list itself, and whenever the coalesced list has a segment it returns the
  time-sorted events outside every coalesced segment as kept and those inside one as
  removed.
\<close>

theorem veto_coalesces_segmentlist:
  assumes "\<forall>s\<in>set segs. fst s \<le> snd s" and "coalesce segs \<noteq> []"
  shows "veto tbl segs =
         Inr (filter (\<lambda>e. \<not> in_segments (coalesce segs) (time e)) (sort_key time tbl),
              filter (\<lambda>e. in_segments (coalesce segs) (time e)) (sort_key time tbl))"
  using assms(2) by (simp add: veto_result [OF assms(1)])

theorem veto_coalesces_segmentlist_witness:
  "coalesce [(3, 4), (1, 2), (1.5, 3.5)] = [(1, 4)] \<and>
   veto [\<lparr>time = 5, frequency = 0, snr = 1, channel = ''X''\<rparr>,
         \<lparr>time = 3, frequency = 0, snr = 1, channel = ''X''\<rparr>]
        [(3, 4), (1, 2), (1.5, 3.5)] =
   Inr ([\<lparr>time = 5, frequency = 0, snr = 1, channel = ''X''\<rparr>],
        [\<lparr>time = 3, frequency = 0, snr = 1, channel = ''X''\<rparr>])"
proof -
  have valid: "\<forall>s\<in>set [(3, 4), (1, 2), (1.5, 3.5) :: seg]. fst s \<le> snd s" by simp
  have c: "coalesce [(3, 4), (1, 2), (1.5, 3.5)] = [(1, 4)]" by code_simp
  then have ne: "coalesce [(3, 4), (1, 2), (1.5, 3.5)] \<noteq> []" by simp
  show ?thesis
    using veto_coalesces_segmentlist [OF valid ne,
        of "[\<lparr>time = 5, frequency = 0, snr = 1, channel = ''X''\<rparr>,
             \<lparr>time = 3, frequency = 0, snr = 1, channel = ''X''\<rparr>]"] c
    by (simp add: in_segments_def)
qed

theorem veto_all_equiv_witness:
  "\<exists>res. veto_all [(''X'', [\<lparr>time = 2, frequency = 0, snr = 1, channel = ''X''\<rparr>,
                             \<lparr>time = 0, frequency = 0, snr = 1, channel = ''X''\<rparr>]),
                     (''Y'', [\<lparr>time = 7, frequency = 0, snr = 1, channel = ''Y''\<rparr>])]
             [(3, 4), (1, 2), (1.5, 3.5)] = Inr res \<and>
         map fst res = [''X'', ''Y'']"
proof -
  let ?aux = "[(''X'', [\<lparr>time = 2, frequency = 0, snr = 1, channel = ''X''\<rparr>,
                        \<lparr>time = 0, frequency = 0, snr = 1, channel = ''X''\<rparr>]),
               (''Y'', [\<lparr>time = 7, frequency = 0, snr = 1, channel = ''Y''\<rparr>])]"
  let ?segs = "[(3, 4), (1, 2), (1.5, 3.5)] :: seg list"
  have valid: "\<forall>s\<in>set ?segs. fst s \<le> snd s" by simp
  have keys: "distinct (map fst ?aux)" by simp
  have own: "\<forall>(c, tbl)\<in>set ?aux. \<forall>e\<in>set tbl. channel e = c" by simp
  have "coalesce ?segs = [(1, 4)]" by code_simp
  then have ne: "?aux \<noteq> [] \<and> coalesce ?segs \<noteq> []" by simp
  from veto_all_equiv [OF valid keys own] ne
  obtain res where res: "veto_all ?aux ?segs = Inr res" by blast
  with veto_all_equiv [OF valid keys own] have "map fst res = map fst ?aux" by blast
  with res show ?thesis by simp
qed


subsection \<open>Counting coincidences over the grid\<close>

text \<open>
  C1. The claim counts every primary event that has a qualifying neighbour. The scan of
  \<^verbatim>\<open>find_all_coincidences\<close> leaves its loop at the first event of the primary channel it
  meets (\<^verbatim>\<open>add_if_coinc\<close> returns nothing for it, and the loop breaks on a false value), so
  an auxiliary event beyond another primary event is never seen: with primary events at
  0 and 1 and an event of X at 2, all inside the window of 10, the code counts 1 where
  the claim counts 2.
\<close>

theorem find_all_coincidences_stops_at_primary:
  "find_all_coincidences
     [\<lparr>time = 0, frequency = 0, snr = 10, channel = ''P''\<rparr>,
      \<lparr>time = 1, frequency = 0, snr = 10, channel = ''P''\<rparr>,
      \<lparr>time = 2, frequency = 0, snr = 10, channel = ''X''\<rparr>] ''P'' [5] [10] =
     [((10, 5), [(''X'', 1)])] \<and>
   spec_coinc_count
     [\<lparr>time = 0, frequency = 0, snr = 10, channel = ''P''\<rparr>,
      \<lparr>time = 1, frequency = 0, snr = 10, channel = ''P''\<rparr>,
      \<lparr>time = 2, frequency = 0, snr = 10, channel = ''X''\<rparr>] ''P'' 10 5 ''X'' = 2"
  by code_simp

text \<open>
  The other half of the claim holds on the code: three qualifying neighbours of one
  channel add one to the count, not three.
\<close>

lemma three_neighbours_count_once:
  "find_all_coincidences
     [\<lparr>time = 0, frequency = 0, snr = 10, channel = ''P''\<rparr>,
      \<lparr>time = 1, frequency = 0, snr = 10, channel = ''X''\<rparr>,
      \<lparr>time = 2, frequency = 0, snr = 10, channel = ''X''\<rparr>,
      \<lparr>time = - 1, frequency = 0, snr = 10, channel = ''X''\<rparr>] ''P'' [5] [10] =
     [((10, 5), [(''X'', 1)])]"
  by code_simp



subsection \<open>The sentinel winner\<close>

lemma count_up_empty: "count_up channels [] = []"
proof -
  have inner: "fold (\<lambda>c co'. AList.map_entry p (f c) co') cset [] = []" for p f and cset :: "string list"
    by (induction cset) simp_all
  have "fold (\<lambda>(p, cset) co. fold (\<lambda>c co'. AList.map_entry p (f c) co') cset co) chs [] = []"
    for f and chs :: "(cell \<times> string list) list"
    by (induction chs) (auto simp: inner)
  then show ?thesis unfolding count_up_def .
qed

lemma primary_step_empty: "primary_step triggers chan snrs windows i [] = []"
  by (simp add: primary_step_def Let_def count_up_empty)

lemma fold_primary_step_empty: "fold (primary_step triggers chan snrs windows) is [] = []"
  by (induction "is") (simp_all add: primary_step_empty)

lemma product_Nil_right: "List.product xs [] = []"
  by (induction xs) simp_all

lemma find_all_coincidences_empty_grid:
  assumes "windows = [] \<or> snrs = []"
  shows "find_all_coincidences triggers chan snrs windows = []"
proof -
  have "List.product (rev (sort windows)) (sort snrs) = []"
    using assms by (auto simp: product_Nil_right)
  then show ?thesis
    by (simp add: find_all_coincidences_def Let_def fold_primary_step_empty)
qed

lemma fold_no_scores:
  assumes "\<forall>(p, cdict)\<in>set coincs. cdict = []"
  shows "fold (\<lambda>(p, cdict) state. fold (f p) cdict state) coincs st = st"
  using assms by (induction coincs) auto

text \<open>
  C4, as stated, fails: the winner returned when nothing scores has the name
  \<^verbatim>\<open>'unknown'\<close>, put there by the constructor call, not \<^verbatim>\<open>None\<close>.
\<close>

theorem find_max_significance_sentinel_name:
  "find_max_significance scipy_gammainc log_gamma_nat
     [\<lparr>time = 0, frequency = 0, snr = 10, channel = ''P''\<rparr>]
     [(''X'', [\<lparr>time = 50, frequency = 0, snr = 10, channel = ''X''\<rparr>])] ''P'' [1] [2] 1000 =
   Inr (HvetoWinner_init (Some ''unknown'') (Some (Finite (- 1))) None None None None 0 None,
        [(''X'', Finite 0)]) \<and>
   getattr (name (HvetoWinner_init (Some ''unknown'') (Some (Finite (- 1))) None None None None
                    0 None)) =
     Inr (Some ''unknown'')"
proof -
  have "find_all_coincidences
          [\<lparr>time = 0, frequency = 0, snr = 10, channel = ''P''\<rparr>,
           \<lparr>time = 50, frequency = 0, snr = 10, channel = ''X''\<rparr>] ''P'' [1] [2] =
        [((2, 1), [])]"
    by code_simp
  then show ?thesis
    by (simp add: find_max_significance_def vstack_tables_def HvetoWinner_init_def)
qed

text \<open>
  C4, amended. When the window list or the threshold list is empty, or no cell of the
  coincidence table has a channel, \<^verbatim>\<open>find_max_significance\<close> raises nothing and returns
  the winner exactly as constructed, with name \<^verbatim>\<open>'unknown'\<close> and significance \<open>-1\<close> and the
  other assigned slots \<^verbatim>\<open>None\<close>, together with a best score of 0 for every auxiliary
  channel; this for every \<^verbatim>\<open>livetime\<close>, zero included.
\<close>

theorem find_max_significance_sentinel:
  assumes "windows = [] \<or> snrs = [] \<or>
           (\<forall>(p, cdict)\<in>set (find_all_coincidences (primary @ concat (map snd auxiliary))
                                 chan snrs windows). cdict = [])"
  shows "find_max_significance gammainc gammaln primary auxiliary chan snrs windows livetime =
         Inr (HvetoWinner_init (Some ''unknown'') (Some (Finite (- 1))) None None None None 0 None,
              fold (\<lambda>c d. AList.update c (Finite 0) d) (map fst auxiliary) [])"
proof -
  let ?coincs = "find_all_coincidences (primary @ concat (map snd auxiliary)) chan snrs windows"
  have "\<forall>(p, cdict)\<in>set ?coincs. cdict = []"
    using assms find_all_coincidences_empty_grid [of windows snrs] by fastforce
  then show ?thesis
    by (simp add: find_max_significance_def vstack_tables_def Let_def fold_no_scores)
qed

theorem find_max_significance_sentinel_witness:
  "find_max_significance scipy_gammainc log_gamma_nat
     [\<lparr>time = 0, frequency = 0, snr = 10, channel = ''P''\<rparr>]
     [(''X'', [\<lparr>time = 50, frequency = 0, snr = 10, channel = ''X''\<rparr>])] ''P'' [1] [2] 0 =
   Inr (HvetoWinner_init (Some ''unknown'') (Some (Finite (- 1))) None None None None 0 None,
        [(''X'', Finite 0)])"
proof -
  let ?primary = "[\<lparr>time = 0, frequency = 0, snr = 10, channel = ''P''\<rparr>]"
  let ?aux = "[(''X'', [\<lparr>time = 50, frequency = 0, snr = 10, channel = ''X''\<rparr>])]"
  have "find_all_coincidences (?primary @ concat (map snd ?aux)) ''P'' [1] [2] = [((2, 1), [])]"
    by code_simp
  then have "[2] = [] \<or> [1] = [] \<or>
      (\<forall>(p, cdict)\<in>set (find_all_coincidences (?primary @ concat (map snd ?aux)) ''P'' [1] [2]).
          cdict = [])"
    by simp
  from find_max_significance_sentinel [OF this] show ?thesis
    by simp
qed

text \<open>
  With a zero \<^verbatim>\<open>livetime\<close> and a coincidence the loop goes on with an infinite expected
  count: the score is 0, which beats the sentinel's \<open>-1\<close>, and the winner carries
  \<open>mu = inf\<close>.
\<close>

lemma find_max_significance_zero_livetime:
  "find_max_significance scipy_gammainc log_gamma_nat
     [\<lparr>time = 0, frequency = 0, snr = 10, channel = ''P''\<rparr>]
     [(''X'', [\<lparr>time = 1, frequency = 0, snr = 10, channel = ''X''\<rparr>])] ''P'' [5] [4] 0 =
   Inr (\<lparr>name = Assigned (Some ''X''), significance_of = Assigned (Some (Finite 0)),
         snr_of = Assigned (Some 5), window = Assigned (Some 4), segments = Assigned None,
         events = Assigned None, ncoinc = Unset, mu_of = Assigned (Some PosInf),
         n_vetoed = Unset\<rparr>,
        [(''X'', Finite 0)])"
proof -
  have "find_all_coincidences
          [\<lparr>time = 0, frequency = 0, snr = 10, channel = ''P''\<rparr>,
           \<lparr>time = 1, frequency = 0, snr = 10, channel = ''X''\<rparr>] ''P'' [5] [4] =
        [((4, 5), [(''X'', 1)])]"
    by code_simp
  then show ?thesis
    by (simp add: find_max_significance_def vstack_tables_def HvetoWinner_init_def
        score_step_def significance_def winner_significance_def fdiv_def Let_def)
qed

subsection \<open>Significance at the edges\<close>

lemma regularized_gamma_P_zero: "regularized_gamma_P (Suc n) 0 = 0"
proof -
  have "(\<Sum>k<Suc n. (0::real) ^ k / fact k) = 1"
    by (induction n) simp_all
  then show ?thesis by (simp add: regularized_gamma_P_def)
qed

lemma scipy_gammainc_zero: "scipy_gammainc (Suc n) (Finite 0) = Finite 0"
  using regularized_gamma_P_zero [of n] by simp

lemma significance_zero_mu:
  assumes "gammainc n (Finite 0) = Finite 0"
  shows "significance gammainc gammaln n (Finite 0) = Inl ValueError"
  using assms by (simp add: significance_def)

text \<open>
  C5. With \<^verbatim>\<open>livetime = 0\<close> and at least one coincidence, the guard sets \<^verbatim>\<open>prob = 0\<close>, so
  \<open>mu = 0\<close>; the incomplete gamma function is 0 there, \<^verbatim>\<open>significance\<close> takes the branch
  for \<open>g = 0\<close> and evaluates \<^verbatim>\<open>log10(0)\<close>: the call raises \<^verbatim>\<open>ValueError\<close> where the claim
  promises a result.
\<close>

theorem coinc_significance_zero_livetime_raises:
  assumes "find_coincidences a b dt \<noteq> []"
    and "gammainc (length (find_coincidences a b dt)) (Finite 0) = Finite 0"
  shows "coinc_significance gammainc gammaln a b dt 0 = Inl ValueError"
  using assms by (simp add: coinc_significance_def Let_def significance_zero_mu)

theorem coinc_significance_zero_livetime_raises_witness:
  "find_coincidences [1] [1] 1 = [0] \<and>
   coinc_significance scipy_gammainc log_gamma_nat [1] [1] 1 0 = Inl ValueError"
proof -
  have hit: "find_coincidences [1] [1] 1 = [0]" by code_simp
  then have ne: "find_coincidences [1] [1] 1 \<noteq> []" by simp
  have zero: "scipy_gammainc (length (find_coincidences [1] [1] 1)) (Finite 0) = Finite 0"
    using scipy_gammainc_zero [of 0] by (simp add: hit)
  from coinc_significance_zero_livetime_raises
         [of "[1]" "[1]" 1 scipy_gammainc log_gamma_nat, OF ne zero] hit
  show ?thesis by simp
qed

text \<open>
  C6, as stated, fails at \<open>mu = 0\<close>: \<^verbatim>\<open>significance\<close> has no branch for \<open>n = 0\<close>, it calls
  \<^verbatim>\<open>gammainc(0, 0)\<close>, which is NaN, and returns NaN, not 0.
\<close>

theorem significance_zero_count_zero_mu:
  "significance scipy_gammainc log_gamma_nat 0 (Finite 0) = Inr NaN"
  by (simp add: significance_def)

text \<open>
  C6, amended. For every \<open>mu > 0\<close>, \<^verbatim>\<open>significance(0, mu)\<close> returns exactly 0: the function
  evaluates \<^verbatim>\<open>gammainc(0, mu)\<close>, which is 1, and returns minus its logarithm.
\<close>

theorem significance_zero_count:
  assumes "0 < mu"
  shows "significance scipy_gammainc gammaln 0 (Finite mu) = Inr (Finite 0)"
  using assms by (simp add: significance_def)

theorem significance_zero_count_witness:
  "(0::real) < 3 \<and> significance scipy_gammainc log_gamma_nat 0 (Finite 3) = Inr (Finite 0)"
proof -
  have pos: "(0::real) < 3" by simp
  from significance_zero_count [OF pos, of log_gamma_nat] pos show ?thesis by simp
qed

text \<open>
  The return of 0 that does not touch the gamma function is in \<^verbatim>\<open>coinc_significance\<close>,
  which answers \<open>(coincs, 0)\<close> when no coincidence is found, whatever \<^verbatim>\<open>gammainc\<close> and
  \<^verbatim>\<open>livetime\<close> are.
\<close>

lemma coinc_significance_no_coincidence:
  assumes "find_coincidences a b dt = []"
  shows "coinc_significance gammainc gammaln a b dt livetime = Inr ([], Finite 0)"
  using assms by (simp add: coinc_significance_def)

text \<open>
  C7. The claim orders \<^verbatim>\<open>significance(n + 1, mu)\<close> and \<^verbatim>\<open>significance(n, mu)\<close> for every
  \<open>mu \<ge> 0\<close>. At \<open>mu = 0\<close> and any count of at least one, the function has no value to
  order: it raises \<^verbatim>\<open>ValueError\<close> from \<^verbatim>\<open>log10(0)\<close>.
\<close>

theorem significance_raises_at_zero_mu:
  "significance scipy_gammainc log_gamma_nat (Suc n) (Finite 0) = Inl ValueError"
  by (rule significance_zero_mu) (rule scipy_gammainc_zero)

subsection \<open>Monotonicity for a positive expected count, in exact arithmetic\<close>

lemma exp_partial_less_exp:
  assumes "0 < x"
  shows "exp_partial n x < exp x"
proof -
  have "summable (\<lambda>k. x ^ k /\<^sub>R fact k)" by (rule summable_exp_generic)
  moreover have "0 < x ^ k /\<^sub>R fact k" for k using assms by simp
  ultimately have "(\<Sum>k<n. x ^ k /\<^sub>R fact k) < (\<Sum>k. x ^ k /\<^sub>R fact k)"
    by (intro sum_less_suminf) auto
  then show ?thesis
    by (simp add: exp_partial_def exp_def divide_inverse mult.commute)
qed

lemma P_pos:
  assumes "0 < x"
  shows "0 < regularized_gamma_P n x"
proof -
  have "exp (- x) * exp_partial n x < exp (- x) * exp x"
    using exp_partial_less_exp [OF assms] by simp
  also have "\<dots> = 1" by (simp add: exp_minus)
  finally show ?thesis by (simp add: regularized_gamma_P_def exp_partial_def)
qed

lemma P_Suc_le:
  assumes "0 \<le> x"
  shows "regularized_gamma_P (Suc n) x \<le> regularized_gamma_P n x"
  using assms by (simp add: regularized_gamma_P_def algebra_simps)

lemma DERIV_exp_partial:
  "(exp_partial (Suc n) has_field_derivative exp_partial n x) (at x)"
proof (induction n)
  case 0
  show ?case by (simp add: exp_partial_def)
next
  case (Suc n)
  have eq: "exp_partial (Suc (Suc n)) = (\<lambda>x. exp_partial (Suc n) x + x ^ Suc n / fact (Suc n))"
    by (rule ext) (simp add: exp_partial_def)
  have "((\<lambda>x. x ^ Suc n) has_field_derivative real (Suc n) * x ^ n) (at x)"
    using DERIV_pow [of "Suc n" x] by simp
  then have "((\<lambda>x. x ^ Suc n / fact (Suc n)) has_field_derivative
               real (Suc n) * x ^ n / fact (Suc n)) (at x)"
    by (rule DERIV_cdivide)
  moreover have "real (Suc n) * x ^ n / fact (Suc n) = x ^ n / fact n"
  proof -
    have "(fact (Suc n) :: real) = real (Suc n) * fact n" by (simp only: fact_Suc of_nat_mult)
    moreover have "real (Suc n) \<noteq> 0" by simp
    ultimately show ?thesis
      by (metis nonzero_mult_divide_mult_cancel_left)
  qed
  ultimately have "((\<lambda>x. x ^ Suc n / fact (Suc n)) has_field_derivative x ^ n / fact n) (at x)"
    by (simp only:)
  from DERIV_add [OF Suc this]
  have "((\<lambda>x. exp_partial (Suc n) x + x ^ Suc n / fact (Suc n)) has_field_derivative
          exp_partial n x + x ^ n / fact n) (at x)" .
  moreover have "exp_partial n x + x ^ n / fact n = exp_partial (Suc n) x"
    by (simp add: exp_partial_def)
  ultimately show ?case
    by (simp only: eq)
qed

lemma Q_antitone:
  assumes "0 \<le> x" "x \<le> y"
  shows "exp (- y) * exp_partial (Suc n) y \<le> exp (- x) * exp_partial (Suc n) x"
proof (rule DERIV_nonpos_imp_nonincreasing [OF assms(2)])
  fix z assume "x \<le> z" "z \<le> y"
  then have z: "0 \<le> z" using assms(1) by simp
  have "((\<lambda>z. exp (- z) * exp_partial (Suc n) z) has_field_derivative
          (- exp (- z) * exp_partial (Suc n) z + exp (- z) * exp_partial n z)) (at z)"
    by (auto intro!: derivative_eq_intros DERIV_exp_partial simp: algebra_simps)
  moreover have "- exp (- z) * exp_partial (Suc n) z + exp (- z) * exp_partial n z \<le> 0"
    using z by (simp add: exp_partial_def algebra_simps)
  ultimately show "\<exists>d. ((\<lambda>z. exp (- z) * exp_partial (Suc n) z) has_real_derivative d) (at z) \<and> d \<le> 0"
    by blast
qed

lemma P_mono:
  assumes "0 < n" "0 \<le> x" "x \<le> y"
  shows "regularized_gamma_P n x \<le> regularized_gamma_P n y"
proof -
  obtain m where "n = Suc m" using assms(1) by (cases n) auto
  with Q_antitone [OF assms(2,3), of m] show ?thesis
    by (simp add: regularized_gamma_P_def exp_partial_def)
qed

lemma scipy_gammainc_positive:
  assumes "0 < mu"
  shows "scipy_gammainc n (Finite mu) = Finite (regularized_gamma_P n mu)"
  using assms by (cases n) (simp_all add: regularized_gamma_P_def)

lemma significance_positive_mu:
  assumes "0 < mu"
  shows "significance scipy_gammainc gammaln n (Finite mu) =
         Inr (Finite (- log 10 (regularized_gamma_P n mu)))"
  using P_pos [OF assms, of n]
  by (simp add: significance_def scipy_gammainc_positive [OF assms] del: scipy_gammainc.simps)

lemma significance_monotone_positive_mu:
  assumes "0 < mu"
  shows "\<exists>s s'. significance scipy_gammainc gammaln n (Finite mu) = Inr (Finite s) \<and>
           significance scipy_gammainc gammaln (Suc n) (Finite mu) = Inr (Finite s') \<and> s \<le> s'"
    and "0 < n \<Longrightarrow> mu \<le> mu' \<Longrightarrow>
         \<exists>s s'. significance scipy_gammainc gammaln n (Finite mu) = Inr (Finite s) \<and>
           significance scipy_gammainc gammaln n (Finite mu') = Inr (Finite s') \<and> s' \<le> s"
proof -
  have "regularized_gamma_P (Suc n) mu \<le> regularized_gamma_P n mu"
    using assms by (intro P_Suc_le) simp
  then have "log 10 (regularized_gamma_P (Suc n) mu) \<le> log 10 (regularized_gamma_P n mu)"
    using P_pos [OF assms] by simp
  then show "\<exists>s s'. significance scipy_gammainc gammaln n (Finite mu) = Inr (Finite s) \<and>
           significance scipy_gammainc gammaln (Suc n) (Finite mu) = Inr (Finite s') \<and> s \<le> s'"
    by (simp add: significance_positive_mu [OF assms])
next
  assume n: "0 < n" and le: "mu \<le> mu'"
  then have pos': "0 < mu'" using assms by simp
  have "regularized_gamma_P n mu \<le> regularized_gamma_P n mu'"
    using n assms le by (intro P_mono) simp_all
  then have "log 10 (regularized_gamma_P n mu) \<le> log 10 (regularized_gamma_P n mu')"
    using P_pos [OF assms] P_pos [OF pos'] by simp
  then show "\<exists>s s'. significance scipy_gammainc gammaln n (Finite mu) = Inr (Finite s) \<and>
           significance scipy_gammainc gammaln n (Finite mu') = Inr (Finite s') \<and> s' \<le> s"
    by (simp add: significance_positive_mu [OF assms] significance_positive_mu [OF pos'])
qed

end
